theory Spec2Isabelle
  imports Main
begin

section \<open>The changeset log of \<open>tuid/clogger.py\<close>\<close>

subsection \<open>Rows and the store\<close>

text \<open>
  A row of the table \<open>csetLog (revnum INTEGER PRIMARY KEY, revision CHAR(12) NOT NULL,
  timestamp INTEGER)\<close>. The column \<open>timestamp\<close> is nullable, so it is an \<open>int option\<close>
  (\<open>None\<close> is SQL \<open>NULL\<close>, Python \<open>None\<close>); the sentinel is \<open>Some (- 1)\<close>.
\<close>

record cset =
  revnum :: int
  revision :: string
  timestamp :: "int option"

text \<open>
  A tuple \<open>(revnum, revision, timestamp)\<close> handed to an \<open>INSERT\<close>: there the key may be
  \<open>NULL\<close>, which is what \<open>Clogger.revnum()\<close> yields on an empty table.
\<close>

type_synonym cset_entry = "int option \<times> string \<times> int option"

datatype error =
  IntegrityError  \<comment> \<open>\<open>INSERT\<close> of a \<open>revnum\<close> that is already a primary key\<close>
  | OperationalError  \<comment> \<open>a statement the engine refuses, \<open>VALUES\<close> with no row\<close>
  | TypeError  \<comment> \<open>subscript of \<open>None\<close>\<close>
  | IndexError  \<comment> \<open>subscript of an empty list\<close>
  | FetchError  \<comment> \<open>\<open>_get_clog\<close> gave up\<close>

text \<open>
  Modelled from the spec: the transactional store behind \<open>self.conn\<close> (\<open>tuid/sql.py\<close>) is not
  part of the sources. The spec gives its contract (4.2 and 6): \<open>lookup_by_rev\<close> returns the
  revnum or nil, \<open>range(lo, hi)\<close> returns all rows with \<open>lo \<le> revnum \<le> hi\<close>, \<open>tip()\<close> is the
  max-revnum row, \<open>revnum\<close> is an integer primary key that is assigned automatically when a row is
  inserted without one. A table is the list of its rows in storage order. A missing row is
  \<open>None\<close>, so Python's test \<open>if row\<close> is \<open>row \<noteq> None\<close>. A value bound to a \<open>?\<close> of a statement is a
  Python value: a text, a number or a tuple of values. A row satisfies \<open>revision = ?\<close> when the
  value is the text of its revision, and \<open>revnum >= ?\<close> or \<open>revnum <= ?\<close> when the value is a
  number that bounds its revnum; a tuple is neither the revision nor a bound of any row.
\<close>

datatype param = Text string | Num int | Tuple "param list"

fun sql_ge :: "int \<Rightarrow> param \<Rightarrow> bool" where
  "sql_ge n (Num m) = (n \<ge> m)"
| "sql_ge n _ = False"

fun sql_le :: "int \<Rightarrow> param \<Rightarrow> bool" where
  "sql_le n (Num m) = (n \<le> m)"
| "sql_le n _ = False"

definition sql_max_revnum :: "cset list \<Rightarrow> int option" where
  "sql_max_revnum tbl = (if tbl = [] then None else Some (Max (set (map revnum tbl))))"

definition sql_insert_row :: "cset_entry \<Rightarrow> cset list \<Rightarrow> error + cset list" where
  "sql_insert_row e tbl =
     (case e of (k, rv, ts) \<Rightarrow>
        (case k of
           None \<Rightarrow> Inr (tbl @ [\<lparr>revnum = (case sql_max_revnum tbl of None \<Rightarrow> 1 | Some m \<Rightarrow> m + 1),
                                revision = rv, timestamp = ts\<rparr>])
         | Some n \<Rightarrow>
             (if n \<in> set (map revnum tbl) then Inl IntegrityError
              else Inr (tbl @ [\<lparr>revnum = n, revision = rv, timestamp = ts\<rparr>]))))"

fun sql_insert :: "cset_entry list \<Rightarrow> cset list \<Rightarrow> error + cset list" where
  "sql_insert [] tbl = Inr tbl"
| "sql_insert (e # es) tbl =
     (case sql_insert_row e tbl of Inl err \<Rightarrow> Inl err | Inr tbl' \<Rightarrow> sql_insert es tbl')"

definition sql_insert_values :: "cset_entry list \<Rightarrow> cset list \<Rightarrow> error + cset list" where
  "sql_insert_values es tbl = (if es = [] then Inl OperationalError else sql_insert es tbl)"

definition sql_replace_row :: "cset \<Rightarrow> cset list \<Rightarrow> cset list" where
  "sql_replace_row r tbl = filter (\<lambda>x. revnum x \<noteq> revnum r) tbl @ [r]"

definition sql_insert_or_replace :: "cset list \<Rightarrow> cset list \<Rightarrow> error + cset list" where
  "sql_insert_or_replace rs tbl =
     (if rs = [] then Inl OperationalError else Inr (fold sql_replace_row rs tbl))"

subsection \<open>Lookups of the log store\<close>

definition clogger_revnum :: "cset list \<Rightarrow> int option" where
  "clogger_revnum tbl = sql_max_revnum tbl"

text \<open>
  \<open>_get_one_revision\<close> is only tested for truth by its caller: the row is kept as its one value.
\<close>

definition get_one_revision :: "cset list \<Rightarrow> cset_entry \<Rightarrow> string option" where
  "get_one_revision tbl e =
     (case e of (_, rv, _) \<Rightarrow> map_option revision (find (\<lambda>r. revision r = rv) tbl))"

text \<open>
  \<open>_get_one_revnum(transaction, rev)\<close> binds the one-element tuple \<open>(rev,)\<close>: \<open>rev\<close> is the value.
  What it returns is the row of the result, the tuple \<open>(revnum,)\<close>, or \<open>None\<close>.
\<close>

definition get_one_revnum :: "cset list \<Rightarrow> param \<Rightarrow> param option" where
  "get_one_revnum tbl rv =
     map_option (\<lambda>r. Tuple [Num (revnum r)]) (find (\<lambda>r. Text (revision r) = rv) tbl)"

text \<open>
  The subscript \<open>v[0]\<close> of Python: the first item of a tuple, the first character of a text.
\<close>

fun subscript0 :: "param \<Rightarrow> error + param" where
  "subscript0 (Tuple (v # vs)) = Inr v"
| "subscript0 (Tuple []) = Inl IndexError"
| "subscript0 (Text (c # cs)) = Inr (Text [c])"
| "subscript0 (Text []) = Inl IndexError"
| "subscript0 (Num n) = Inl TypeError"

text \<open>
  \<open>max\<close> and \<open>min\<close> of Python on the values that reach \<open>_get_revnum_range\<close>: numbers, and the
  rows of one number that \<open>_get_one_revnum\<close> returns, which compare as their numbers do. Of two
  values that do not differ \<open>max\<close> and \<open>min\<close> return the first.
\<close>

fun py_less :: "param \<Rightarrow> param \<Rightarrow> bool" where
  "py_less (Num a) (Num b) = (a < b)"
| "py_less (Tuple [Num a]) (Tuple [Num b]) = (a < b)"
| "py_less _ _ = False"

definition py_max :: "param \<Rightarrow> param \<Rightarrow> param" where
  "py_max a b = (if py_less a b then b else a)"

definition py_min :: "param \<Rightarrow> param \<Rightarrow> param" where
  "py_min a b = (if py_less b a then b else a)"

definition get_revnum_range :: "cset list \<Rightarrow> param \<Rightarrow> param \<Rightarrow> (int \<times> string) list" where
  "get_revnum_range tbl revnum1 revnum2 =
     (let high_num = py_max revnum1 revnum2;
          low_num = py_min revnum1 revnum2
      in map (\<lambda>r. (revnum r, revision r))
           (filter (\<lambda>r. sql_ge (revnum r) low_num \<and> sql_le (revnum r) high_num) tbl))"

subsection \<open>Compaction\<close>

text \<open>
  \<open>recompute_table_revnums\<close> copies \<open>(revision, timestamp)\<close> of every row, in ascending
  \<open>revnum\<close> order, into a fresh table whose key is assigned on insertion.
\<close>

definition recompute_table_revnums :: "cset list \<Rightarrow> cset list" where
  "recompute_table_revnums tbl =
     (case sql_insert (map (\<lambda>r. (None, revision r, timestamp r)) (sort_key revnum tbl)) [] of
        Inl _ \<Rightarrow> tbl | Inr tmp \<Rightarrow> tmp)"

definition payload :: "cset \<Rightarrow> string \<times> int option" where
  "payload r = (revision r, timestamp r)"

subsection \<open>Insertion of a batch\<close>

text \<open>
  \<open>jx.groupby(xs, size = n)\<close> cuts \<open>xs\<close> into consecutive groups of at most \<open>n\<close> elements.
\<close>

function groupby_size :: "nat \<Rightarrow> 'a list \<Rightarrow> 'a list list" where
  "groupby_size n xs =
     (if xs = [] then [] else if n = 0 then [xs] else take n xs # groupby_size n (drop n xs))"
  by pat_completeness auto
termination
  by (relation "measure (\<lambda>(n, xs). length xs)") auto

declare groupby_size.simps [simp del]

text \<open>
  The constants of the module. The workers below take \<open>MINIMUM_PERMANENT_CSETS\<close> and
  \<open>MAXIMUM_NONPERMANENT_CSETS\<close> as parameters \<open>minp\<close> and \<open>maxn\<close>: what is proved of them holds
  for every value of the two, these included.
\<close>

definition SQL_CSET_BATCH_SIZE :: nat where
  "SQL_CSET_BATCH_SIZE = 500"

definition MINIMUM_PERMANENT_CSETS :: nat where
  "MINIMUM_PERMANENT_CSETS = 1000"

definition MAXIMUM_NONPERMANENT_CSETS :: nat where
  "MAXIMUM_NONPERMANENT_CSETS = 20000"

fun sql_insert_batches :: "cset_entry list list \<Rightarrow> cset list \<Rightarrow> error + cset list" where
  "sql_insert_batches [] tbl = Inr tbl"
| "sql_insert_batches (b # bs) tbl =
     (case sql_insert_values b tbl of Inl err \<Rightarrow> Inl err | Inr tbl' \<Rightarrow> sql_insert_batches bs tbl')"

text \<open>
  The first loop of \<open>add_cset_entries\<close>: one tuple per revision. \<open>now\<close> is the value of
  \<open>int(time.time())\<close>; going forward the key is what \<open>self.revnum()\<close> returns, read anew for
  every row while the table is not written, going backward it is \<open>- count\<close>.
\<close>

definition insert_list_of :: "int \<Rightarrow> cset list \<Rightarrow> string list \<Rightarrow> bool \<Rightarrow> bool \<Rightarrow> cset_entry list" where
  "insert_list_of now tbl ordered_rev_list stamp number_forward =
     map (\<lambda>(count, rv).
            ((if number_forward then clogger_revnum tbl else Some (- int count)),
             rv,
             Some (if stamp then now else - 1)))
         (enumerate 0 ordered_rev_list)"

definition add_cset_entries ::
  "int \<Rightarrow> cset list \<Rightarrow> string list \<Rightarrow> bool \<Rightarrow> bool \<Rightarrow> error + cset list" where
  "add_cset_entries now tbl ordered_rev_list stamp number_forward =
     (let ordered = (if number_forward then rev ordered_rev_list else ordered_rev_list);
          insert_list = insert_list_of now tbl ordered stamp number_forward;
          fmt_insert_list = filter (\<lambda>e. get_one_revision tbl e = None) insert_list
      in case sql_insert_batches (groupby_size SQL_CSET_BATCH_SIZE fmt_insert_list) tbl of
           Inl err \<Rightarrow> Inl err
         | Inr tbl' \<Rightarrow> Inr (recompute_table_revnums tbl'))"

subsection \<open>The state of a \<open>Clogger\<close>\<close>

record clogger =
  csetLog :: "cset list"
  annotations :: "(string \<times> string) list"  \<comment> \<open>\<open>(revision, annotation)\<close>\<close>
  latestFileMod :: "(string \<times> string) list"  \<comment> \<open>\<open>(file, revision)\<close>\<close>
  csets_todo_backwards :: "(string \<times> bool) list"
  deletions_todo :: "string list"
  at_tip :: bool
  disable_backfilling :: bool
  disable_tipfilling :: bool
  disable_deletion :: bool
  disable_maintenance :: bool

text \<open>
  The fields as \<open>__init__\<close> sets them, over the tables found in the database.
\<close>

definition new_clogger ::
  "cset list \<Rightarrow> (string \<times> string) list \<Rightarrow> (string \<times> string) list \<Rightarrow> clogger" where
  "new_clogger tbl ann lfm =
     \<lparr>csetLog = tbl, annotations = ann, latestFileMod = lfm, csets_todo_backwards = [],
      deletions_todo = [], at_tip = True, disable_backfilling = False,
      disable_tipfilling = False, disable_deletion = False, disable_maintenance = False\<rparr>"

definition permanent :: "int \<Rightarrow> string \<Rightarrow> cset" where
  "permanent k rv = \<lparr>revnum = k, revision = rv, timestamp = Some (- 1)\<rparr>"

subsection \<open>The tip worker\<close>

text \<open>
  \<open>SELECT max(revnum), revision FROM csetLog\<close>: the revision of the row with the largest key,
  \<open>None\<close> on an empty table.
\<close>

definition tip_revision :: "cset list \<Rightarrow> string option" where
  "tip_revision tbl = map_option revision (find (\<lambda>r. Some (revnum r) = sql_max_revnum tbl) tbl)"

text \<open>
  The \<open>for\<close> loop of \<open>update_tip\<close> over \<open>clog_csets_list[:-1]\<close>, on the node ids of one page.
  The result is \<open>(found_newest_known, csets_found, csets_to_add)\<close>.
\<close>

fun gather_page ::
  "string option \<Rightarrow> nat option \<Rightarrow> string list \<Rightarrow> nat \<Rightarrow> string list \<Rightarrow> bool \<times> nat \<times> string list" where
  "gather_page known gather [] found acc = (False, found, acc)"
| "gather_page known gather (n # ns) found acc =
     (if gather = None \<or> gather = Some 0
      then (if Some n = known then (True, found, acc)
            else gather_page known gather ns (found + 1) (acc @ [n]))
      else (if found \<ge> the gather then (True, found, acc)
            else gather_page known gather ns (found + 1) (acc @ [n])))"

text \<open>
  The \<open>while\<close> loop of \<open>update_tip\<close>. \<open>clog\<close> is the upstream changelog: the node ids of the page
  that starts at a cursor, \<open>None\<close> when \<open>_get_clog\<close> fails. The loop has no bound of its own, so
  it runs on fuel, one unit per page, and \<open>None\<close> is a loop that is still paging.
\<close>

fun gather_tip ::
  "(string \<Rightarrow> string list option) \<Rightarrow> nat \<Rightarrow> string option \<Rightarrow> nat option \<Rightarrow> string list \<Rightarrow> nat
     \<Rightarrow> string list \<Rightarrow> (error + string list) option" where
  "gather_tip clog 0 known gather page found acc = None"
| "gather_tip clog (Suc fuel) known gather page found acc =
     (case gather_page known gather (butlast page) found acc of
        (True, _, acc') \<Rightarrow> Some (Inr acc')
      | (False, found', acc') \<Rightarrow>
          (if page = [] then Some (Inl IndexError)
           else (case clog (last page) of
                   None \<Rightarrow> Some (Inl FetchError)
                 | Some page' \<Rightarrow> gather_tip clog fuel known gather page' found' acc')))"

definition update_tip ::
  "nat \<Rightarrow> (string \<Rightarrow> string list option) \<Rightarrow> nat \<Rightarrow> int \<Rightarrow> clogger
     \<Rightarrow> ((error + bool) \<times> clogger) option" where
  "update_tip minp clog fuel now st =
     (case clog ''tip'' of
        None \<Rightarrow> Some (Inl FetchError, st)
      | Some page \<Rightarrow>
          (let newest_known_rev = tip_revision (csetLog st) in
           if page = [] then Some (Inl IndexError, st)
           else if newest_known_rev = Some (hd page) then Some (Inr False, st)
           else
             (let st1 = st\<lparr>at_tip := False\<rparr>;
                  csets_to_gather =
                    (if newest_known_rev = None \<or> newest_known_rev = Some [] then Some minp else None)
              in case gather_tip clog fuel newest_known_rev csets_to_gather page 0 [] of
                   None \<Rightarrow> None
                 | Some (Inl err) \<Rightarrow> Some (Inl err, st1)
                 | Some (Inr csets_to_add) \<Rightarrow>
                     (case add_cset_entries now (csetLog st) csets_to_add False True of
                        Inl err \<Rightarrow> Some (Inl err, st1)
                      | Inr tbl \<Rightarrow> Some (Inr True, st1\<lparr>csetLog := tbl, at_tip := True\<rparr>)))))"

text \<open>
  One pass through the body of the \<open>while\<close> loop of \<open>fill_forward_continuous\<close>: the worker
  waits for \<open>CSET_TIP_WAIT_TIME\<close>, or goes round again at once after an update, or leaves the
  loop through the \<open>except\<close> clause, which is outside of it.
\<close>

datatype tick = Waited | Looped | Stopped error

definition fill_forward_continuous ::
  "nat \<Rightarrow> (string \<Rightarrow> string list option) \<Rightarrow> nat \<Rightarrow> int \<Rightarrow> clogger \<Rightarrow> (tick \<times> clogger) option" where
  "fill_forward_continuous minp clog fuel now st =
     (if disable_backfilling st then Some (Waited, st)
      else (case update_tip minp clog fuel now st of
              None \<Rightarrow> None
            | Some (Inl err, st') \<Rightarrow> Some (Stopped err, st')
            | Some (Inr did_an_update, st') \<Rightarrow>
                Some (if did_an_update then Looped else Waited, st')))"

subsection \<open>The maintenance worker\<close>

text \<open>Python's \<open>xs[:k]\<close>: a negative \<open>k\<close> counts from the end.\<close>

definition py_slice_to :: "'a list \<Rightarrow> int \<Rightarrow> 'a list" where
  "py_slice_to xs k = (if k \<ge> 0 then take (nat k) xs else take (nat (int (length xs) + k)) xs)"

text \<open>
  The body of the \<open>for\<close> loop over \<open>enumerate(all_data[::-1])\<close>: the flag says whether the row
  sets \<open>modified\<close>. \<open>type(timestamp) != int\<close> holds of \<open>None\<close> only.
\<close>

definition restore_row :: "nat \<Rightarrow> int \<Rightarrow> nat \<times> cset \<Rightarrow> bool \<times> cset" where
  "restore_row minp now cr =
     (case cr of (count, r) \<Rightarrow>
        (if count < minp
         then (if timestamp r \<noteq> Some (- 1) then (True, r\<lparr>timestamp := Some (- 1)\<rparr>) else (False, r))
         else if timestamp r = None then (True, r\<lparr>timestamp := Some now\<rparr>)
         else (False, r)))"

text \<open>
  \<open>set(all_data) - set(deleted_data)\<close>; Python leaves the order in which the set is read
  open, the statements below are about the rows as a set.
\<close>

definition set_minus :: "'a list \<Rightarrow> 'a list \<Rightarrow> 'a list" where
  "set_minus xs ys = remdups (filter (\<lambda>x. x \<notin> set ys) xs)"

text \<open>
  The critical section of \<open>csetLog_maintenance\<close>, with the two constants as parameters. The
  branch under \<open>UPDATE_VERY_OLD_FRONTIERS\<close> is not there: the constant is \<open>False\<close>.
\<close>

definition maintenance_section :: "nat \<Rightarrow> nat \<Rightarrow> int \<Rightarrow> clogger \<Rightarrow> error + clogger" where
  "maintenance_section minp maxn now st =
     (let all_data = sort_key revnum (csetLog st);
          marked = map (restore_row minp now) (enumerate 0 (rev all_data));
          new_data = map snd marked;
          modified = list_ex fst marked;
          deleted_data = py_slice_to all_data (int (length all_data) - int maxn);
          new_data2 = (if deleted_data \<noteq> [] then set_minus all_data deleted_data else new_data)
      in case (if modified then sql_insert_or_replace new_data2 (csetLog st) else Inr (csetLog st)) of
           Inl err \<Rightarrow> Inl err
         | Inr tbl \<Rightarrow>
             Inr (if deleted_data = [] then st\<lparr>csetLog := tbl\<rparr>
                  else st\<lparr>csetLog := tbl,
                          deletions_todo := deletions_todo st @ [revision (last deleted_data)]\<rparr>))"

text \<open>
  One maintenance cycle, after the wait: nothing when deletions are pending or maintenance is
  disabled; an exception is logged and the transaction that raised it is rolled back.
\<close>

definition csetLog_maintenance :: "nat \<Rightarrow> nat \<Rightarrow> int \<Rightarrow> clogger \<Rightarrow> clogger" where
  "csetLog_maintenance minp maxn now st =
     (if deletions_todo st \<noteq> [] \<or> disable_maintenance st then st
      else (case maintenance_section minp maxn now st of Inl _ \<Rightarrow> st | Inr st' \<Rightarrow> st'))"

subsection \<open>The deleter\<close>

text \<open>
  The body of the loop over \<open>tmp_deletions\<close>, for one boundary \<open>first_cset\<close>. The row of the
  lookup is subscripted, \<open>self._get_one_revnum(t, first_cset)[0]\<close>, and the number is bound to
  \<open>revnum <= ?\<close>.
\<close>

definition delete_boundary :: "clogger \<Rightarrow> string \<Rightarrow> error + clogger" where
  "delete_boundary st first_cset =
     (case get_one_revnum (csetLog st) (Text first_cset) of
        None \<Rightarrow> Inl TypeError
      | Some row \<Rightarrow>
          (case subscript0 row of
             Inl err \<Rightarrow> Inl err
           | Inr k \<Rightarrow>
               (let csets_to_del = map revision (filter (\<lambda>r. sql_le (revnum r) k) (csetLog st));
                    existing_frontiers =
                      map snd (filter (\<lambda>fr. snd fr \<in> set csets_to_del) (latestFileMod st));
                    lfm = (if existing_frontiers \<noteq> []
                           then filter (\<lambda>fr. snd fr \<notin> set existing_frontiers) (latestFileMod st)
                           else latestFileMod st);
                    ann = filter (\<lambda>a. fst a \<notin> set csets_to_del) (annotations st);
                    tbl = filter (\<lambda>r. revision r \<notin> set csets_to_del) (csetLog st)
                in Inr (st\<lparr>latestFileMod := lfm, annotations := ann,
                           csetLog := recompute_table_revnums tbl\<rparr>))))"

fun delete_boundaries :: "string list \<Rightarrow> clogger \<Rightarrow> clogger + clogger" where
  "delete_boundaries [] st = Inr st"
| "delete_boundaries (c # cs) st =
     (case delete_boundary st c of Inl _ \<Rightarrow> Inl st | Inr st' \<Rightarrow> delete_boundaries cs st')"

text \<open>
  One pass of \<open>csetLog_deleter\<close>. An exception leaves the loop over the boundaries with what
  was deleted so far and the queue as it was (\<open>Inl\<close> above).
\<close>

definition csetLog_deleter :: "clogger \<Rightarrow> clogger" where
  "csetLog_deleter st =
     (if deletions_todo st = [] \<or> disable_deletion st then st
      else (let tmp_deletions = deletions_todo st in
            case delete_boundaries tmp_deletions st of
              Inl st' \<Rightarrow> st'
            | Inr st' \<Rightarrow>
                st'\<lparr>deletions_todo := filter (\<lambda>todo. todo \<notin> set tmp_deletions) (deletions_todo st')\<rparr>))"

subsection \<open>The query facade\<close>

text \<open>
  The poll of \<open>get_old_cset_revnum\<close> reads the table once per round while other workers write
  it, with the call \<open>self._get_one_revnum(t, (revision,))\<close>: the value it looks up is the
  one-element tuple. The tables that the successive rounds read are given as a list; \<open>None\<close> is a call that is
  still waiting after the last of them.
\<close>

fun poll_revnum :: "cset list list \<Rightarrow> param \<Rightarrow> (param \<times> cset list) option" where
  "poll_revnum [] rv = None"
| "poll_revnum (tbl # rest) rv =
     (case get_one_revnum tbl rv of Some k \<Rightarrow> Some (k, tbl) | None \<Rightarrow> poll_revnum rest rv)"

definition get_old_cset_revnum ::
  "clogger \<Rightarrow> cset list list \<Rightarrow> string \<Rightarrow> param option \<times> clogger" where
  "get_old_cset_revnum st reads rv =
     (let st1 = st\<lparr>csets_todo_backwards := csets_todo_backwards st @ [(rv, True)]\<rparr> in
      case poll_revnum reads (Tuple [Text rv]) of
        None \<Rightarrow> (None, st1)
      | Some (k, tbl) \<Rightarrow> (Some k, st1\<lparr>csetLog := tbl\<rparr>))"

text \<open>
  \<open>get_revnnums_from_range\<close>. The first part resolves the two revisions: a missing first
  revision triggers one tip update and then the poll of \<open>get_old_cset_revnum\<close>, after which the
  second revision is looked up again. \<open>revnum1\<close> and \<open>revnum2\<close> are the rows that the lookups
  return, not their numbers. \<open>reads1\<close> and \<open>reads2\<close> are the tables read by the rounds of the
  two polls; \<open>None\<close> is a call that has not returned (the tip update is still paging, or a poll
  is still waiting).
\<close>

definition resolve_revnums ::
  "nat \<Rightarrow> (string \<Rightarrow> string list option) \<Rightarrow> nat \<Rightarrow> int \<Rightarrow> cset list list \<Rightarrow> clogger
     \<Rightarrow> string \<Rightarrow> string \<Rightarrow> ((error + param \<times> param option) \<times> clogger) option" where
  "resolve_revnums minp clog fuel now reads1 st revision1 revision2 =
     (let revnum1 = get_one_revnum (csetLog st) (Text revision1);
          revnum2 = get_one_revnum (csetLog st) (Text revision2)
      in case revnum1 of
           Some row1 \<Rightarrow> Some (Inr (row1, revnum2), st)
         | None \<Rightarrow>
             (case update_tip minp clog fuel now st of
                None \<Rightarrow> None
              | Some (Inl err, st1) \<Rightarrow> Some (Inl err, st1)
              | Some (Inr did_an_update, st1) \<Rightarrow>
                  (let revnum1' = (if did_an_update then get_one_revnum (csetLog st1) (Text revision1)
                                   else revnum1);
                       revnum2' = (if did_an_update then get_one_revnum (csetLog st1) (Text revision2)
                                   else revnum2)
                   in case revnum1' of
                        Some row1 \<Rightarrow> Some (Inr (row1, revnum2'), st1)
                      | None \<Rightarrow>
                          (case get_old_cset_revnum st1 reads1 revision1 of
                             (None, st2) \<Rightarrow> None
                           | (Some row1, st2) \<Rightarrow>
                               Some (Inr (row1, get_one_revnum (csetLog st2) (Text revision2)),
                                     st2)))))"

text \<open>
  The last two statements: the two rows go to \<open>_get_revnum_range\<close> as they are, without the
  subscript that the deleter applies, and the result is sorted by \<open>int(x[0])\<close>. What
  \<open>transaction.query\<close> returns is taken as the list of the rows it selects.
\<close>

definition sorted_revnum_range :: "cset list \<Rightarrow> param \<Rightarrow> param \<Rightarrow> (int \<times> string) list" where
  "sorted_revnum_range tbl revnum1 revnum2 = sort_key fst (get_revnum_range tbl revnum1 revnum2)"

definition get_revnnums_from_range ::
  "nat \<Rightarrow> (string \<Rightarrow> string list option) \<Rightarrow> nat \<Rightarrow> int \<Rightarrow> cset list list \<Rightarrow> cset list list
     \<Rightarrow> clogger \<Rightarrow> string \<Rightarrow> string \<Rightarrow> ((error + (int \<times> string) list) \<times> clogger) option" where
  "get_revnnums_from_range minp clog fuel now reads1 reads2 st revision1 revision2 =
     (case resolve_revnums minp clog fuel now reads1 st revision1 revision2 of
        None \<Rightarrow> None
      | Some (Inl err, st1) \<Rightarrow> Some (Inl err, st1)
      | Some (Inr (revnum1, Some revnum2), st1) \<Rightarrow>
          Some (Inr (sorted_revnum_range (csetLog st1) revnum1 revnum2), st1)
      | Some (Inr (revnum1, None), st1) \<Rightarrow>
          (case get_old_cset_revnum st1 reads2 revision2 of
             (None, st2) \<Rightarrow> None
           | (Some revnum2, st2) \<Rightarrow>
               Some (Inr (sorted_revnum_range (csetLog st2) revnum1 revnum2), st2)))"

section \<open>Properties\<close>

subsection \<open>Insertion without a key\<close>

lemma sql_max_revnum_upto:
  "map revnum tbl = [1..int (length tbl)] \<Longrightarrow>
   (case sql_max_revnum tbl of None \<Rightarrow> 1 | Some m \<Rightarrow> m + 1) = int (length tbl) + 1"
proof (cases "tbl = []")
  case True
  then show ?thesis by (simp add: sql_max_revnum_def)
next
  case False
  assume m: "map revnum tbl = [1..int (length tbl)]"
  from False have pos: "1 \<le> int (length tbl)" by (cases tbl) auto
  have "set (map revnum tbl) = {1..int (length tbl)}" using m by simp
  then have "Max (set (map revnum tbl)) = int (length tbl)"
    using pos by (intro Max_eqI) auto
  then show ?thesis using False by (simp add: sql_max_revnum_def)
qed

lemma sql_insert_auto:
  "map revnum tbl = [1..int (length tbl)] \<Longrightarrow>
   \<exists>tbl'. sql_insert (map (\<lambda>r. (None, revision r, timestamp r)) rs) tbl = Inr tbl'
        \<and> map revnum tbl' = [1..int (length tbl + length rs)]
        \<and> map payload tbl' = map payload tbl @ map payload rs"
proof (induction rs arbitrary: tbl)
  case Nil
  then show ?case by simp
next
  case (Cons r rs)
  let ?row = "\<lparr>revnum = int (length tbl) + 1, revision = revision r, timestamp = timestamp r\<rparr>"
  have step: "sql_insert_row (None, revision r, timestamp r) tbl = Inr (tbl @ [?row])"
    using sql_max_revnum_upto [OF Cons.prems] by (simp add: sql_insert_row_def)
  have "[1..int (length tbl) + 1] = [1..int (length tbl)] @ [int (length tbl) + 1]"
    using upto_rec2 [of 1 "int (length tbl) + 1"] by simp
  then have inv: "map revnum (tbl @ [?row]) = [1..int (length (tbl @ [?row]))]"
    using Cons.prems by (simp add: add.commute)
  from Cons.IH [OF inv] obtain tbl' where
    t: "sql_insert (map (\<lambda>r. (None, revision r, timestamp r)) rs) (tbl @ [?row]) = Inr tbl'"
       "map revnum tbl' = [1..int (length (tbl @ [?row]) + length rs)]"
       "map payload tbl' = map payload (tbl @ [?row]) @ map payload rs"
    by blast
  have "payload ?row = payload r" by (simp add: payload_def)
  then show ?case using t step by simp
qed

lemma recompute_table_revnums_eq:
  "map revnum (recompute_table_revnums tbl) = [1..int (length tbl)]
   \<and> map payload (recompute_table_revnums tbl) = map payload (sort_key revnum tbl)"
proof -
  have "map revnum ([]::cset list) = [1..int (length ([]::cset list))]" by simp
  from sql_insert_auto [OF this, of "sort_key revnum tbl"] show ?thesis
    by (auto simp add: recompute_table_revnums_def)
qed

subsection \<open>Compaction renumbers densely\<close>

text \<open>
  Claim C1. For every table with distinct revnums, \<open>recompute_table_revnums\<close> leaves the
  revnums \<open>1..N\<close> without gaps; the row that gets revnum \<open>i\<close> carries the revision and the
  timestamp of the row that was \<open>i\<close>-th in strictly ascending order of the previous revnums, so
  the sequence of (revision, timestamp) pairs in revnum order is unchanged.
\<close>

theorem recompute_table_revnums_dense:
  assumes "distinct (map revnum tbl)"
  shows "map revnum (recompute_table_revnums tbl) = [1..int (length tbl)]
       \<and> map payload (recompute_table_revnums tbl) = map payload (sort_key revnum tbl)
       \<and> sorted_wrt (<) (map revnum (sort_key revnum tbl))
       \<and> set (sort_key revnum tbl) = set tbl"
proof -
  have "sorted (map revnum (sort_key revnum tbl))" by simp
  moreover have "distinct (map revnum (sort_key revnum tbl))"
    using assms by (simp add: distinct_map)
  ultimately have "sorted_wrt (<) (map revnum (sort_key revnum tbl))"
    by (simp add: strict_sorted_iff)
  then show ?thesis using recompute_table_revnums_eq [of tbl] by simp
qed

theorem recompute_table_revnums_dense_witness:
  "distinct (map revnum [\<lparr>revnum = 0, revision = ''B'', timestamp = Some 7\<rparr>,
                         \<lparr>revnum = - 1, revision = ''A'', timestamp = Some 7\<rparr>,
                         \<lparr>revnum = 1, revision = ''C'', timestamp = Some (- 1)\<rparr>])
   \<and> map revnum (recompute_table_revnums
         [\<lparr>revnum = 0, revision = ''B'', timestamp = Some 7\<rparr>,
          \<lparr>revnum = - 1, revision = ''A'', timestamp = Some 7\<rparr>,
          \<lparr>revnum = 1, revision = ''C'', timestamp = Some (- 1)\<rparr>]) = [1, 2, 3]
   \<and> map payload (recompute_table_revnums
         [\<lparr>revnum = 0, revision = ''B'', timestamp = Some 7\<rparr>,
          \<lparr>revnum = - 1, revision = ''A'', timestamp = Some 7\<rparr>,
          \<lparr>revnum = 1, revision = ''C'', timestamp = Some (- 1)\<rparr>])
     = [(''A'', Some 7), (''B'', Some 7), (''C'', Some (- 1))]"
  using recompute_table_revnums_dense
    [of "[\<lparr>revnum = 0, revision = ''B'', timestamp = Some 7\<rparr>,
          \<lparr>revnum = - 1, revision = ''A'', timestamp = Some 7\<rparr>,
          \<lparr>revnum = 1, revision = ''C'', timestamp = Some (- 1)\<rparr>]"]
  by (simp add: payload_def upto.simps)

subsection \<open>The maintenance worker\<close>

lemma sql_replace_row_same:
  assumes "r \<in> set tbl" "distinct (map revnum tbl)"
  shows "set (sql_replace_row r tbl) = set tbl \<and> distinct (map revnum (sql_replace_row r tbl))"
proof -
  let ?keep = "filter (\<lambda>x. revnum x \<noteq> revnum r) tbl"
  have inj: "inj_on revnum (set tbl)" using assms(2) by (simp add: distinct_map)
  have eq: "(revnum x \<noteq> revnum r) = (x \<noteq> r)" if "x \<in> set tbl" for x
    using inj_onD [OF inj _ that assms(1)] by blast
  have "set ?keep = {x \<in> set tbl. revnum x \<noteq> revnum r}" by simp
  also have "\<dots> = set tbl - {r}" using eq by blast
  finally have s: "set ?keep = set tbl - {r}" .
  have d: "distinct (map revnum ?keep)"
    using assms(2) by (rule distinct_map_filter)
  have n: "revnum r \<notin> revnum ` set ?keep" by auto
  have "set (?keep @ [r]) = set tbl" using s assms(1) by (simp add: insert_absorb)
  moreover have "distinct (map revnum (?keep @ [r]))" using d n by simp
  ultimately show ?thesis unfolding sql_replace_row_def by blast
qed

lemma fold_sql_replace_row_same:
  "set rs \<subseteq> set tbl \<Longrightarrow> distinct (map revnum tbl) \<Longrightarrow>
   set (fold sql_replace_row rs tbl) = set tbl
   \<and> distinct (map revnum (fold sql_replace_row rs tbl))"
proof (induction rs arbitrary: tbl)
  case Nil
  then show ?case by simp
next
  case (Cons r rs)
  from Cons.prems have r: "r \<in> set tbl" by simp
  note one = sql_replace_row_same [OF r Cons.prems(2)]
  from one have s1: "set (sql_replace_row r tbl) = set tbl" by blast
  from one have d1: "distinct (map revnum (sql_replace_row r tbl))" by blast
  from Cons.prems(1) s1 have sub: "set rs \<subseteq> set (sql_replace_row r tbl)" by simp
  from Cons.IH [OF sub d1] s1 show ?case by simp
qed

lemma set_minus_subset: "set (set_minus xs ys) \<subseteq> set xs"
  unfolding set_minus_def by auto

lemma py_slice_to_overflow:
  "n < length xs \<Longrightarrow> py_slice_to xs (int (length xs) - int n) \<noteq> []"
proof -
  assume a: "n < length xs"
  then have k: "int (length xs) - int n = int (length xs - n)" by simp
  have "py_slice_to xs (int (length xs - n)) = take (length xs - n) xs"
    unfolding py_slice_to_def by simp
  moreover have "length (take (length xs - n) xs) = length xs - n" by simp
  ultimately have "length (py_slice_to xs (int (length xs - n))) > 0" using a by simp
  then show ?thesis unfolding k by blast
qed

lemma maintenance_section_overflow:
  assumes "distinct (map revnum (csetLog st))" "length (csetLog st) > maxn"
  shows "case maintenance_section minp maxn now st of
           Inl _ \<Rightarrow> True
         | Inr st' \<Rightarrow> set (csetLog st') = set (csetLog st) \<and> distinct (map revnum (csetLog st'))"
proof -
  define all_data where "all_data = sort_key revnum (csetLog st)"
  define deleted where "deleted = py_slice_to all_data (int (length all_data) - int maxn)"
  define modified where
    "modified = list_ex fst (map (restore_row minp now) (enumerate 0 (rev all_data)))"
  have "maxn < length all_data" using assms(2) by (simp add: all_data_def)
  from py_slice_to_overflow [OF this] have ne: "deleted \<noteq> []" by (simp add: deleted_def)
  have sub: "set (set_minus all_data deleted) \<subseteq> set (csetLog st)"
    using set_minus_subset [of all_data deleted] by (simp add: all_data_def)
  note f = fold_sql_replace_row_same [OF sub assms(1)]
  have eq: "maintenance_section minp maxn now st =
     (case (if modified then sql_insert_or_replace (set_minus all_data deleted) (csetLog st)
            else Inr (csetLog st)) of
        Inl err \<Rightarrow> Inl err
      | Inr tbl \<Rightarrow> Inr (st\<lparr>csetLog := tbl,
                  deletions_todo := deletions_todo st @ [revision (last deleted)]\<rparr>))"
    unfolding maintenance_section_def Let_def all_data_def [symmetric] deleted_def [symmetric]
      modified_def [symmetric]
    using ne by (simp split: sum.split)
  show ?thesis
  proof (cases modified)
    case True
    show ?thesis
    proof (cases "set_minus all_data deleted = []")
      case True
      with \<open>modified\<close> show ?thesis unfolding eq sql_insert_or_replace_def by simp
    next
      case False
      with \<open>modified\<close> f show ?thesis unfolding eq sql_insert_or_replace_def by simp
    qed
  next
    case False
    then show ?thesis unfolding eq using assms(1) by simp
  qed
qed

text \<open>
  Claim C10. In a maintenance cycle on a table with more than \<open>MAXIMUM_NONPERMANENT_CSETS\<close> rows
  the rows written back are rows of the snapshot read at the start (those not scheduled for
  deletion), so the table holds the same rows, each with the timestamp it had before the cycle:
  neither a restoration of the sentinel nor a stamp computed in that cycle is stored.
\<close>

theorem maintenance_overflow_keeps_rows:
  assumes "distinct (map revnum (csetLog st))" "length (csetLog st) > maxn"
  shows "set (csetLog (csetLog_maintenance minp maxn now st)) = set (csetLog st)
       \<and> distinct (map revnum (csetLog (csetLog_maintenance minp maxn now st)))"
proof (cases "maintenance_section minp maxn now st")
  case (Inl e)
  then show ?thesis using assms(1) unfolding csetLog_maintenance_def by simp
next
  case (Inr st')
  with maintenance_section_overflow [OF assms, of minp now]
  have "set (csetLog st') = set (csetLog st) \<and> distinct (map revnum (csetLog st'))" by simp
  then show ?thesis using Inr assms(1) unfolding csetLog_maintenance_def by simp
qed

theorem maintenance_overflow_keeps_rows_witness:
  "distinct (map revnum [\<lparr>revnum = 1, revision = ''A'', timestamp = Some 50\<rparr>,
                         \<lparr>revnum = 2, revision = ''B'', timestamp = None\<rparr>,
                         \<lparr>revnum = 3, revision = ''C'', timestamp = Some 70\<rparr>,
                         \<lparr>revnum = 4, revision = ''D'', timestamp = Some 80\<rparr>])
   \<and> (3::nat) < length [\<lparr>revnum = 1, revision = ''A'', timestamp = Some 50\<rparr>,
                         \<lparr>revnum = 2, revision = ''B'', timestamp = None\<rparr>,
                         \<lparr>revnum = 3, revision = ''C'', timestamp = Some 70\<rparr>,
                         \<lparr>revnum = 4, revision = ''D'', timestamp = Some 80\<rparr>]
   \<and> set (csetLog (csetLog_maintenance 1 3 1700000000
        (new_clogger [\<lparr>revnum = 1, revision = ''A'', timestamp = Some 50\<rparr>,
                      \<lparr>revnum = 2, revision = ''B'', timestamp = None\<rparr>,
                      \<lparr>revnum = 3, revision = ''C'', timestamp = Some 70\<rparr>,
                      \<lparr>revnum = 4, revision = ''D'', timestamp = Some 80\<rparr>] [] [])))
     = {\<lparr>revnum = 1, revision = ''A'', timestamp = Some 50\<rparr>,
        \<lparr>revnum = 2, revision = ''B'', timestamp = None\<rparr>,
        \<lparr>revnum = 3, revision = ''C'', timestamp = Some 70\<rparr>,
        \<lparr>revnum = 4, revision = ''D'', timestamp = Some 80\<rparr>}"
  using maintenance_overflow_keeps_rows
    [of "new_clogger [\<lparr>revnum = 1, revision = ''A'', timestamp = Some 50\<rparr>,
                      \<lparr>revnum = 2, revision = ''B'', timestamp = None\<rparr>,
                      \<lparr>revnum = 3, revision = ''C'', timestamp = Some 70\<rparr>,
                      \<lparr>revnum = 4, revision = ''D'', timestamp = Some 80\<rparr>] [] []" 3 1 1700000000]
  by (simp add: new_clogger_def)

lemma restore_row_sentinel:
  "timestamp r = Some (- 1) \<Longrightarrow> restore_row minp now (c, r) = (False, r)"
  by (simp add: restore_row_def)

lemma marked_sentinel:
  "\<forall>r\<in>set xs. timestamp r = Some (- 1) \<Longrightarrow>
   map (restore_row minp now) (enumerate n xs) = map (\<lambda>r. (False, r)) xs"
  by (induction xs arbitrary: n) (simp_all add: restore_row_sentinel)

text \<open>
  Claim C2 says that a cycle stamps every row behind the permanent window whose timestamp is the
  sentinel. The source tests \<open>type(timestamp) != int\<close> there, which the sentinel \<open>- 1\<close> does not
  satisfy: on a table whose timestamps are all \<open>- 1\<close>, and that is too short for the deletion
  slice (\<open>2 * N \<le> MAXIMUM_NONPERMANENT_CSETS\<close>), a cycle changes nothing at all, whatever the
  size of the permanent window.
\<close>

theorem maintenance_leaves_sentinel:
  assumes "\<forall>r\<in>set (csetLog st). timestamp r = Some (- 1)" "2 * length (csetLog st) \<le> maxn"
  shows "csetLog_maintenance minp maxn now st = st"
proof -
  let ?all = "sort_key revnum (csetLog st)"
  have "\<forall>r\<in>set (rev ?all). timestamp r = Some (- 1)" using assms(1) by simp
  from marked_sentinel [OF this]
  have m: "map (restore_row minp now) (enumerate 0 (rev ?all)) = map (\<lambda>r. (False, r)) (rev ?all)" .
  have nm: "\<not> list_ex fst (map (\<lambda>r. (False, r)) (rev ?all))" by (simp add: list_ex_iff)
  have del: "py_slice_to ?all (int (length ?all) - int maxn) = []"
    using assms(2) by (simp add: py_slice_to_def)
  show ?thesis using m nm del
    by (simp add: csetLog_maintenance_def maintenance_section_def Let_def)
qed

theorem maintenance_leaves_sentinel_witness:
  "2 * length (csetLog (new_clogger [permanent 1 ''A'', permanent 2 ''B'', permanent 3 ''C''] [] [])) \<le> 6
   \<and> csetLog_maintenance 2 6 1700000000
        (new_clogger [permanent 1 ''A'', permanent 2 ''B'', permanent 3 ''C''] [] [])
      = new_clogger [permanent 1 ''A'', permanent 2 ''B'', permanent 3 ''C''] [] []
   \<and> map timestamp (csetLog (new_clogger [permanent 1 ''A'', permanent 2 ''B'', permanent 3 ''C''] [] []))
      = [Some (- 1), Some (- 1), Some (- 1)]"
  using maintenance_leaves_sentinel
    [of "new_clogger [permanent 1 ''A'', permanent 2 ''B'', permanent 3 ''C''] [] []" 6 2 1700000000]
  by (simp add: new_clogger_def permanent_def)

lemmas maint_eval = csetLog_maintenance_def maintenance_section_def new_clogger_def permanent_def
      restore_row_def py_slice_to_def Let_def set_minus_def sql_insert_or_replace_def sql_replace_row_def

text \<open>
  The deletion slice \<open>all_data[:len(all_data) - MAXIMUM_NONPERMANENT_CSETS]\<close> has a negative
  bound on a table with fewer rows than the constant, and Python then counts it from the end:
  a table of two rows with the constant at three has its oldest row scheduled.
\<close>

lemma maintenance_negative_slice:
  "csetLog_maintenance 2 3 now (new_clogger [permanent 1 a, permanent 2 b] an lf)
   = (new_clogger [permanent 1 a, permanent 2 b] an lf) \<lparr>deletions_todo := [a]\<rparr>"
  by (simp add: maint_eval)

text \<open>
  Claim C3, as stated: with \<open>MINIMUM_PERMANENT_CSETS = 2\<close> and
  \<open>MAXIMUM_NONPERMANENT_CSETS = 3\<close>, a cycle on six rows with timestamp \<open>- 1\<close> stamps rows
  3 to 5 and puts the revision of the oldest row on the deletion queue. On the code the boundary
  is the revision of the third row and no row is stamped.
\<close>

theorem maintenance_six_rows_counterexample:
  "deletions_todo (csetLog_maintenance 2 3 1700000000
     (new_clogger [permanent 1 ''A'', permanent 2 ''B'', permanent 3 ''C'', permanent 4 ''D'',
                   permanent 5 ''E'', permanent 6 ''F''] [] [])) = [''C'']
   \<and> map timestamp (csetLog (csetLog_maintenance 2 3 1700000000
     (new_clogger [permanent 1 ''A'', permanent 2 ''B'', permanent 3 ''C'', permanent 4 ''D'',
                   permanent 5 ''E'', permanent 6 ''F''] [] [])))
     = [Some (- 1), Some (- 1), Some (- 1), Some (- 1), Some (- 1), Some (- 1)]"
  by (simp add: maint_eval)

text \<open>
  Claim C3, amended: with these constants a cycle on six rows numbered 1 to 6 with timestamp
  \<open>- 1\<close> keeps \<open>- 1\<close> on the newest two rows and appends exactly one boundary to the deletion
  queue, the revision of the third-oldest row, which is the newest of the
  \<open>N - MAXIMUM_NONPERMANENT_CSETS = 3\<close> oldest rows.
\<close>

theorem maintenance_six_rows:
  "deletions_todo (csetLog_maintenance 2 3 now
     (new_clogger [permanent 1 a, permanent 2 b, permanent 3 c, permanent 4 d, permanent 5 e,
                   permanent 6 f] an lf)) = [c]
   \<and> filter (\<lambda>r. 5 \<le> revnum r) (csetLog (csetLog_maintenance 2 3 now
     (new_clogger [permanent 1 a, permanent 2 b, permanent 3 c, permanent 4 d, permanent 5 e,
                   permanent 6 f] an lf))) = [permanent 5 e, permanent 6 f]
   \<and> map revnum (csetLog (csetLog_maintenance 2 3 now
     (new_clogger [permanent 1 a, permanent 2 b, permanent 3 c, permanent 4 d, permanent 5 e,
                   permanent 6 f] an lf))) = [1, 2, 3, 4, 5, 6]"
  by (simp add: maint_eval)

theorem maintenance_six_rows_witness:
  "deletions_todo (csetLog_maintenance 2 3 1700000000
     (new_clogger [permanent 1 ''a1'', permanent 2 ''b2'', permanent 3 ''c3'', permanent 4 ''d4'',
                   permanent 5 ''e5'', permanent 6 ''f6''] [(''c3'', ''x'')] [(''file'', ''b2'')]))
   = [''c3'']"
  using maintenance_six_rows
    [of 1700000000 "''a1''" "''b2''" "''c3''" "''d4''" "''e5''" "''f6''"
        "[(''c3'', ''x'')]" "[(''file'', ''b2'')]"]
  by simp

subsection \<open>Insertion of a batch\<close>

lemma get_one_revision_None:
  "(get_one_revision tbl (k, rv, ts) = None) = (rv \<notin> revision ` set tbl)"
  unfolding get_one_revision_def by (auto simp add: find_None_iff)

lemma insert_list_of_revisions:
  "map (\<lambda>e. fst (snd e)) (insert_list_of now tbl xs stamp fwd) = xs"
proof -
  have "(\<lambda>e. fst (snd e)) \<circ>
        (\<lambda>(count, rv). ((if fwd then clogger_revnum tbl else Some (- int count)), rv,
                          Some (if stamp then now else - 1))) = snd"
    by (auto simp add: fun_eq_iff)
  then have "map (\<lambda>e. fst (snd e)) (insert_list_of now tbl xs stamp fwd) = map snd (enumerate 0 xs)"
    unfolding insert_list_of_def map_map by (rule arg_cong)
  then show ?thesis by simp
qed

lemma insert_list_of_keys:
  "e \<in> set (insert_list_of now tbl xs stamp True) \<Longrightarrow> fst e = clogger_revnum tbl"
  unfolding insert_list_of_def by auto

lemma filter_revisions:
  "map (\<lambda>e. fst (snd e)) (filter (\<lambda>e. get_one_revision tbl e = None) es)
   = filter (\<lambda>rv. rv \<notin> revision ` set tbl) (map (\<lambda>e. fst (snd e)) es)"
proof (induction es)
  case Nil
  then show ?case by simp
next
  case (Cons e es)
  obtain k rv ts where e: "e = (k, rv, ts)" by (cases e) auto
  show ?case using Cons.IH by (simp add: e get_one_revision_None)
qed

lemma sql_insert_row_revisions:
  "sql_insert_row e tbl = Inr tbl' \<Longrightarrow> map revision tbl' = map revision tbl @ [fst (snd e)]"
  unfolding sql_insert_row_def by (auto split: prod.splits option.splits if_splits)

lemma sql_insert_revisions:
  "sql_insert es tbl = Inr tbl' \<Longrightarrow>
   map revision tbl' = map revision tbl @ map (\<lambda>e. fst (snd e)) es"
proof (induction es arbitrary: tbl)
  case Nil
  then show ?case by simp
next
  case (Cons e es)
  from Cons.prems obtain t where t: "sql_insert_row e tbl = Inr t" "sql_insert es t = Inr tbl'"
    by (auto split: sum.splits)
  from Cons.IH [OF t(2)] sql_insert_row_revisions [OF t(1)] show ?case by simp
qed

lemma sql_insert_append:
  "sql_insert (xs @ ys) tbl =
   (case sql_insert xs tbl of Inl err \<Rightarrow> Inl err | Inr t \<Rightarrow> sql_insert ys t)"
  by (induction xs arbitrary: tbl) (auto split: sum.splits)

lemma sql_insert_batches_flat:
  "sql_insert_batches (groupby_size n es) tbl = Inr tbl' \<Longrightarrow> sql_insert es tbl = Inr tbl'"
proof (induction n es arbitrary: tbl rule: groupby_size.induct)
  case (1 n xs)
  show ?case
  proof (cases "xs = []")
    case True
    with "1.prems" show ?thesis by (simp add: groupby_size.simps)
  next
    case False
    show ?thesis
    proof (cases "n = 0")
      case True
      have "groupby_size 0 xs = [xs]" using False by (simp add: groupby_size.simps [of 0 xs])
      with True False "1.prems" show ?thesis
        by (simp add: sql_insert_values_def split: sum.splits)
    next
      case n: False
      have g: "groupby_size n xs = take n xs # groupby_size n (drop n xs)"
        using False n by (simp add: groupby_size.simps [of n xs])
      from "1.prems" g obtain t where
        t: "sql_insert_values (take n xs) tbl = Inr t"
           "sql_insert_batches (groupby_size n (drop n xs)) t = Inr tbl'"
        by (auto split: sum.splits)
      have ne: "take n xs \<noteq> []" using False n by (cases xs) auto
      from t(1) ne have a: "sql_insert (take n xs) tbl = Inr t"
        by (simp add: sql_insert_values_def)
      from "1.IH" [OF False n t(2)] have b: "sql_insert (drop n xs) t = Inr tbl'" .
      have "sql_insert (take n xs @ drop n xs) tbl = Inr tbl'"
        unfolding sql_insert_append using a b by simp
      then show ?thesis by simp
    qed
  qed
qed

lemma recompute_table_revnums_revisions:
  "map revision (recompute_table_revnums tbl) = map revision (sort_key revnum tbl)"
proof -
  have "map fst (map payload (recompute_table_revnums tbl))
        = map fst (map payload (sort_key revnum tbl))"
    using recompute_table_revnums_eq [of tbl] by simp
  moreover have "fst \<circ> payload = revision" by (simp add: fun_eq_iff payload_def)
  ultimately show ?thesis by (simp only: map_map)
qed

lemma distinct_revisions_sort:
  "distinct (map revision (sort_key revnum tbl)) = distinct (map revision tbl)"
  by (simp add: distinct_map)

lemma add_cset_entries_Inr:
  assumes "add_cset_entries now tbl revs stamp fwd = Inr tbl'"
  shows "\<exists>t. tbl' = recompute_table_revnums t
           \<and> map revision t = map revision tbl
                @ filter (\<lambda>rv. rv \<notin> revision ` set tbl) (if fwd then rev revs else revs)"
proof -
  let ?ord = "if fwd then rev revs else revs"
  let ?fmt = "filter (\<lambda>e. get_one_revision tbl e = None) (insert_list_of now tbl ?ord stamp fwd)"
  from assms obtain t where
    t: "sql_insert_batches (groupby_size SQL_CSET_BATCH_SIZE ?fmt) tbl = Inr t"
       "tbl' = recompute_table_revnums t"
    unfolding add_cset_entries_def Let_def by (auto split: sum.splits)
  from sql_insert_revisions [OF sql_insert_batches_flat [OF t(1)]]
  have "map revision t = map revision tbl @ map (\<lambda>e. fst (snd e)) ?fmt" .
  then have "map revision t = map revision tbl @ filter (\<lambda>rv. rv \<notin> revision ` set tbl) ?ord"
    by (simp only: filter_revisions insert_list_of_revisions)
  with t(2) show ?thesis by blast
qed

lemma add_cset_entries_present:
  assumes "set revs \<subseteq> revision ` set tbl"
  shows "add_cset_entries now tbl revs stamp fwd = Inr (recompute_table_revnums tbl)"
proof -
  let ?ord = "if fwd then rev revs else revs"
  let ?ins = "insert_list_of now tbl ?ord stamp fwd"
  have "map (\<lambda>e. fst (snd e)) (filter (\<lambda>e. get_one_revision tbl e = None) ?ins)
        = filter (\<lambda>rv. rv \<notin> revision ` set tbl) ?ord"
    by (simp only: filter_revisions insert_list_of_revisions)
  also have "\<dots> = []" using assms by (auto simp add: filter_empty_conv)
  finally have "filter (\<lambda>e. get_one_revision tbl e = None) ?ins = []" by simp
  then show ?thesis
    unfolding add_cset_entries_def Let_def by (simp add: groupby_size.simps [of _ "[]"])
qed

lemma groupby_size_Cons:
  "0 < n \<Longrightarrow>
   groupby_size n (x # xs) = take n (x # xs) # groupby_size n (drop n (x # xs))"
  by (subst groupby_size.simps) simp

lemma take_Cons_pos: "0 < n \<Longrightarrow> take n (x # xs) = x # take (n - 1) xs"
  by (cases n) simp_all

lemma groupby_size_Nil: "groupby_size n [] = []"
  by (simp add: groupby_size.simps [of n "[]"])

lemmas add_eval = add_cset_entries_def insert_list_of_def get_one_revision_def
  clogger_revnum_def sql_max_revnum_def sql_insert_values_def sql_insert_row_def
  recompute_table_revnums_def permanent_def SQL_CSET_BATCH_SIZE_def groupby_size_Cons
  groupby_size_Nil Let_def

text \<open>
  Claim C9, as stated: no insert ever creates two rows with the same revision. The filter of
  \<open>add_cset_entries\<close> compares the batch with the table only, so a revision that occurs twice
  in one batch is inserted twice.
\<close>

theorem add_cset_entries_duplicate_counterexample:
  "add_cset_entries 1700000000 [permanent 1 ''A''] [''Y'', ''Y''] True False
   = Inr [\<lparr>revnum = 1, revision = ''Y'', timestamp = Some 1700000000\<rparr>,
          \<lparr>revnum = 2, revision = ''Y'', timestamp = Some 1700000000\<rparr>,
          \<lparr>revnum = 3, revision = ''A'', timestamp = Some (- 1)\<rparr>]"
  by (simp add: add_eval)

text \<open>
  Claim C9, amended: \<open>add_cset_entries\<close> skips every row of the batch whose revision is in the
  table. A batch of revisions that are all in the table is inserted without error and leaves
  the set of (revision, timestamp) pairs as it was; and when the revisions of the batch are
  pairwise distinct and those of the table are, a successful insert leaves the revisions of
  the table distinct, namely those of the table and of the batch.
\<close>

theorem add_cset_entries_idempotent:
  "(set revs \<subseteq> revision ` set tbl \<longrightarrow>
      (\<exists>tbl'. add_cset_entries now tbl revs stamp fwd = Inr tbl'
             \<and> set (map payload tbl') = set (map payload tbl)))
   \<and> (distinct revs \<and> distinct (map revision tbl)
        \<and> add_cset_entries now tbl revs stamp fwd = Inr res \<longrightarrow>
      distinct (map revision res)
      \<and> set (map revision res) = set (map revision tbl) \<union> set revs)"
proof (intro conjI impI)
  assume "set revs \<subseteq> revision ` set tbl"
  from add_cset_entries_present [OF this]
  have "add_cset_entries now tbl revs stamp fwd = Inr (recompute_table_revnums tbl)" .
  moreover have "set (map payload (recompute_table_revnums tbl)) = set (map payload tbl)"
    using recompute_table_revnums_eq [of tbl] by simp
  ultimately show "\<exists>tbl'. add_cset_entries now tbl revs stamp fwd = Inr tbl'
             \<and> set (map payload tbl') = set (map payload tbl)" by blast
next
  assume a: "distinct revs \<and> distinct (map revision tbl)
        \<and> add_cset_entries now tbl revs stamp fwd = Inr res"
  let ?ord = "if fwd then rev revs else revs"
  from a add_cset_entries_Inr [of now tbl revs stamp fwd res] obtain t where
    t: "res = recompute_table_revnums t"
       "map revision t = map revision tbl @ filter (\<lambda>rv. rv \<notin> revision ` set tbl) ?ord"
    by blast
  have d: "distinct ?ord" using a by simp
  have "distinct (map revision t)" unfolding t(2) using a d by auto
  then have "distinct (map revision (sort_key revnum t))"
    by (simp only: distinct_revisions_sort)
  then show "distinct (map revision res)"
    by (simp only: t(1) recompute_table_revnums_revisions)
  have "set (map revision res) = set (map revision t)"
    unfolding t(1) recompute_table_revnums_revisions by simp
  also have "\<dots> = set (map revision tbl) \<union> set revs" unfolding t(2) by auto
  finally show "set (map revision res) = set (map revision tbl) \<union> set revs" .
qed

theorem add_cset_entries_idempotent_witness:
  "add_cset_entries 1700000000 [permanent 1 ''A'', permanent 2 ''B''] [''B'', ''A''] True False
     = Inr [permanent 1 ''A'', permanent 2 ''B'']
   \<and> add_cset_entries 1700000000 [permanent 1 ''A'', permanent 2 ''B''] [''Z'', ''B''] True False
     = Inr [\<lparr>revnum = 1, revision = ''Z'', timestamp = Some 1700000000\<rparr>,
            permanent 2 ''A'', permanent 3 ''B'']
   \<and> distinct (map revision [\<lparr>revnum = 1, revision = ''Z'', timestamp = Some 1700000000\<rparr>,
            permanent 2 ''A'', permanent 3 ''B''])"
  using add_cset_entries_idempotent
    [of "[''B'', ''A'']" "[permanent 1 ''A'', permanent 2 ''B'']" 1700000000 True False
        "[permanent 1 ''A'', permanent 2 ''B'']"]
    add_cset_entries_idempotent
    [of "[''Z'', ''B'']" "[permanent 1 ''A'', permanent 2 ''B'']" 1700000000 True False
        "[\<lparr>revnum = 1, revision = ''Z'', timestamp = Some 1700000000\<rparr>,
            permanent 2 ''A'', permanent 3 ''B'']"]
  by (simp add: add_eval)

text \<open>
  Claim C4 says that a forward batch on a non-empty table gets increasing provisional revnums
  from the current maximum. \<open>add_cset_entries\<close> gives every row of the batch the value of
  \<open>self.revnum()\<close>, which is the current maximum itself and is read before anything is
  written: whenever the table is not empty and the batch has a revision that is not in the
  table, the \<open>INSERT\<close> collides with the newest row and nothing is inserted.
\<close>

theorem add_cset_entries_forward_collides:
  assumes "tbl \<noteq> []" "\<not> set revs \<subseteq> revision ` set tbl"
  shows "add_cset_entries now tbl revs stamp True = Inl IntegrityError"
proof -
  let ?ins = "insert_list_of now tbl (rev revs) stamp True"
  let ?fmt = "filter (\<lambda>e. get_one_revision tbl e = None) ?ins"
  have "map (\<lambda>e. fst (snd e)) ?fmt = filter (\<lambda>rv. rv \<notin> revision ` set tbl) (rev revs)"
    by (simp only: filter_revisions insert_list_of_revisions)
  moreover have "filter (\<lambda>rv. rv \<notin> revision ` set tbl) (rev revs) \<noteq> []"
    using assms(2) by (auto simp add: filter_empty_conv)
  ultimately have ne: "?fmt \<noteq> []" by auto
  then obtain e es where fmt: "?fmt = e # es" by (cases ?fmt) auto
  then have "e \<in> set ?fmt" by simp
  then have "e \<in> set ?ins" by simp
  from insert_list_of_keys [OF this] have k: "fst e = Some (Max (set (map revnum tbl)))"
    using assms(1) by (simp add: clogger_revnum_def sql_max_revnum_def)
  have "Max (set (map revnum tbl)) \<in> set (map revnum tbl)"
    using assms(1) by (intro Max_in) auto
  with k have row: "sql_insert_row e tbl = Inl IntegrityError"
    unfolding sql_insert_row_def by (cases e) auto
  have g: "groupby_size SQL_CSET_BATCH_SIZE (e # es)
           = take SQL_CSET_BATCH_SIZE (e # es)
             # groupby_size SQL_CSET_BATCH_SIZE (drop SQL_CSET_BATCH_SIZE (e # es))"
    by (rule groupby_size_Cons) (simp add: SQL_CSET_BATCH_SIZE_def)
  have "take SQL_CSET_BATCH_SIZE (e # es) = e # take (SQL_CSET_BATCH_SIZE - 1) es"
    by (rule take_Cons_pos) (simp add: SQL_CSET_BATCH_SIZE_def)
  with row have "sql_insert_values (take SQL_CSET_BATCH_SIZE (e # es)) tbl = Inl IntegrityError"
    by (simp add: sql_insert_values_def)
  with g have "sql_insert_batches (groupby_size SQL_CSET_BATCH_SIZE ?fmt) tbl = Inl IntegrityError"
    unfolding fmt by simp
  then show ?thesis unfolding add_cset_entries_def Let_def by simp
qed

theorem add_cset_entries_forward_collides_witness:
  "add_cset_entries 1700000000
     [permanent 1 ''D'', permanent 2 ''E'', permanent 3 ''F'', permanent 4 ''G'', permanent 5 ''H'']
     [''K'', ''J'', ''I''] False True = Inl IntegrityError
   \<and> map fst (insert_list_of 1700000000
     [permanent 1 ''D'', permanent 2 ''E'', permanent 3 ''F'', permanent 4 ''G'', permanent 5 ''H'']
     [''I'', ''J'', ''K''] False True) = [Some 5, Some 5, Some 5]"
  using add_cset_entries_forward_collides
    [of "[permanent 1 ''D'', permanent 2 ''E'', permanent 3 ''F'', permanent 4 ''G'',
          permanent 5 ''H'']" "[''K'', ''J'', ''I'']" 1700000000 False]
  by (simp add: permanent_def insert_list_of_def clogger_revnum_def sql_max_revnum_def)

text \<open>
  The forward extension of the spec (scenario 2): the table holds \<open>D\<close> to \<open>H\<close> at revnums 1 to
  5 and upstream starts with \<open>K, J, I, H\<close>. The tip update ends in the collision.
\<close>

lemma update_tip_forward_extension:
  "update_tip 5 (map_of [(''tip'', [''K'', ''J'', ''I'', ''H'', ''G''])]) 1 now
     (new_clogger [permanent 1 ''D'', permanent 2 ''E'', permanent 3 ''F'', permanent 4 ''G'',
                   permanent 5 ''H''] [] [])
   = Some (Inl IntegrityError,
       (new_clogger [permanent 1 ''D'', permanent 2 ''E'', permanent 3 ''F'', permanent 4 ''G'',
                   permanent 5 ''H''] [] []) \<lparr>at_tip := False\<rparr>)"
  by (simp add: update_tip_def tip_revision_def new_clogger_def add_eval)

subsection \<open>The tip worker\<close>

text \<open>
  Claim C7 says that the tip worker only sleeps while \<open>disable_tipfilling\<close> is set. The loop
  of \<open>fill_forward_continuous\<close> reads \<open>disable_backfilling\<close> instead: with \<open>disable_tipfilling\<close>
  set on an empty table the worker pages through upstream and fills the table.
\<close>

theorem fill_forward_continuous_ignores_flag:
  "fill_forward_continuous 2
     (map_of [(''tip'', [''C'', ''B'', ''A'']), (''A'', [''A'', ''Z'', ''Y''])]) 2 now
     ((new_clogger [] [] []) \<lparr>disable_tipfilling := True\<rparr>)
   = Some (Looped, (new_clogger [permanent 1 ''B'', permanent 2 ''C''] [] [])
        \<lparr>disable_tipfilling := True\<rparr>)"
  by (simp add: fill_forward_continuous_def update_tip_def tip_revision_def new_clogger_def
      add_eval numeral_2_eq_2)

theorem fill_forward_continuous_ignores_flag_witness:
  "csetLog (snd (the (fill_forward_continuous 2
     (map_of [(''tip'', [''C'', ''B'', ''A'']), (''A'', [''A'', ''Z'', ''Y''])]) 2 1700000000
     ((new_clogger [] [] []) \<lparr>disable_tipfilling := True\<rparr>))))
   = [permanent 1 ''B'', permanent 2 ''C'']"
  using fill_forward_continuous_ignores_flag [of 1700000000]
  by (simp add: new_clogger_def)

text \<open>The flag that the loop does read: with \<open>disable_backfilling\<close> set the pass only waits.\<close>

lemma fill_forward_continuous_waits:
  "disable_backfilling st \<Longrightarrow> fill_forward_continuous minp clog fuel now st = Some (Waited, st)"
  by (simp add: fill_forward_continuous_def)

subsection \<open>The deleter\<close>

lemma revision_in_deleted:
  assumes "distinct (map revision tbl)" "r \<in> set tbl"
  shows "(revision r \<in> set (map revision (filter (\<lambda>x. revnum x \<le> k) tbl))) = (revnum r \<le> k)"
proof
  assume "revision r \<in> set (map revision (filter (\<lambda>x. revnum x \<le> k) tbl))"
  then obtain x where x: "x \<in> set tbl" "revnum x \<le> k" "revision x = revision r" by auto
  have "inj_on revision (set tbl)" using assms(1) by (simp add: distinct_map)
  from inj_onD [OF this x(3) x(1) assms(2)] x(2) show "revnum r \<le> k" by simp
next
  assume "revnum r \<le> k"
  with assms(2) show "revision r \<in> set (map revision (filter (\<lambda>x. revnum x \<le> k) tbl))"
    by auto
qed

lemma filter_deleted_rows:
  assumes "distinct (map revision tbl)"
  shows "filter (\<lambda>r. revision r \<notin> set (map revision (filter (\<lambda>x. revnum x \<le> k) tbl))) tbl
         = filter (\<lambda>r. k < revnum r) tbl"
proof (rule filter_cong [OF refl])
  fix r assume "r \<in> set tbl"
  from revision_in_deleted [OF assms this, of k]
  show "(revision r \<notin> set (map revision (filter (\<lambda>x. revnum x \<le> k) tbl))) = (k < revnum r)"
    by auto
qed

lemma filter_frontiers:
  "(if map snd (filter (\<lambda>fr. snd fr \<in> D) lfm) \<noteq> []
    then filter (\<lambda>fr. snd fr \<notin> set (map snd (filter (\<lambda>fr. snd fr \<in> D) lfm))) lfm
    else lfm)
   = filter (\<lambda>fr. snd fr \<notin> D) lfm"
proof -
  have a: "filter (\<lambda>fr. snd fr \<notin> set (map snd (filter (\<lambda>fr. snd fr \<in> D) lfm))) lfm
           = filter (\<lambda>fr. snd fr \<notin> D) lfm"
    by (rule filter_cong [OF refl]) auto
  have b: "filter (\<lambda>fr. snd fr \<notin> D) lfm = lfm" if "map snd (filter (\<lambda>fr. snd fr \<in> D) lfm) = []"
    using that by (auto simp add: filter_empty_conv filter_id_conv)
  show ?thesis using a b by auto
qed

text \<open>
  Claim C5, as stated: the deleter removes from \<open>csetLog\<close> exactly the rows with revnum at
  most that of the boundary. The rows are selected by revnum but deleted by revision
  (\<open>DELETE FROM csetLog WHERE revision IN ...\<close>), and the table has no uniqueness constraint on
  \<open>revision\<close>: with \<open>Y\<close> at revnums 1 and 3 and the boundary \<open>X\<close> at revnum 2, the row at revnum 3
  is deleted as well, and only \<open>Z\<close> remains.
\<close>

theorem delete_boundary_duplicate_counterexample:
  "get_one_revnum [permanent 1 ''Y'', permanent 2 ''X'', permanent 3 ''Y'', permanent 4 ''Z'']
     (Text ''X'') = Some (Tuple [Num 2])
   \<and> delete_boundary
     (new_clogger [permanent 1 ''Y'', permanent 2 ''X'', permanent 3 ''Y'', permanent 4 ''Z''] [] [])
     ''X''
   = Inr (new_clogger [permanent 1 ''Z''] [] [])"
  by (simp add: delete_boundary_def get_one_revnum_def new_clogger_def permanent_def
      recompute_table_revnums_def sql_insert_row_def sql_max_revnum_def)

text \<open>
  Claim C5, amended: when the deleter processes a boundary \<open>first_cset\<close> whose revnum is \<open>k\<close>,
  in a \<open>csetLog\<close> whose revisions are unique, the rows it removes from \<open>csetLog\<close> are exactly
  those with revnum at most \<open>k\<close>; from \<open>annotations\<close> and \<open>latestFileMod\<close> it removes exactly the
  rows whose revision is one of the removed changesets; and the rows that remain in \<open>csetLog\<close>
  are renumbered \<open>1..N\<close> in their order.
\<close>

theorem delete_boundary_exact:
  assumes "distinct (map revision (csetLog st))"
    and "get_one_revnum (csetLog st) (Text first_cset) = Some (Tuple [Num k])"
  shows "\<exists>st'. delete_boundary st first_cset = Inr st'
     \<and> csetLog st' = recompute_table_revnums (filter (\<lambda>r. k < revnum r) (csetLog st))
     \<and> map revnum (csetLog st')
         = [1..int (length (filter (\<lambda>r. k < revnum r) (csetLog st)))]
     \<and> map payload (csetLog st')
         = map payload (sort_key revnum (filter (\<lambda>r. k < revnum r) (csetLog st)))
     \<and> annotations st'
         = filter (\<lambda>a. fst a \<notin> revision ` {r \<in> set (csetLog st). revnum r \<le> k})
             (annotations st)
     \<and> latestFileMod st'
         = filter (\<lambda>fr. snd fr \<notin> revision ` {r \<in> set (csetLog st). revnum r \<le> k})
             (latestFileMod st)"
proof -
  let ?D = "set (map revision (filter (\<lambda>x. revnum x \<le> k) (csetLog st)))"
  have D: "?D = revision ` {r \<in> set (csetLog st). revnum r \<le> k}" by auto
  let ?st' = "st\<lparr>latestFileMod := filter (\<lambda>fr. snd fr \<notin> ?D) (latestFileMod st),
                 annotations := filter (\<lambda>a. fst a \<notin> ?D) (annotations st),
                 csetLog := recompute_table_revnums (filter (\<lambda>r. k < revnum r) (csetLog st))\<rparr>"
  have "delete_boundary st first_cset = Inr ?st'"
    unfolding delete_boundary_def Let_def
    by (simp only: assms(2) option.case subscript0.simps sum.case sql_le.simps
        filter_frontiers filter_deleted_rows [OF assms(1)])
  then show ?thesis
    using recompute_table_revnums_eq [of "filter (\<lambda>r. k < revnum r) (csetLog st)"]
    by (simp add: D)
qed

theorem delete_boundary_exact_witness:
  "delete_boundary
     ((new_clogger [permanent 1 ''A'', permanent 2 ''Y'', permanent 3 ''X'', permanent 4 ''D'',
                    permanent 5 ''E'']
        [(''X'', ''tuids of X''), (''Y'', ''tuids of Y''), (''E'', ''tuids of E'')]
        [(''old.py'', ''X''), (''new.py'', ''E'')]) \<lparr>deletions_todo := [''X'']\<rparr>) ''X''
   = Inr ((new_clogger [permanent 1 ''D'', permanent 2 ''E'']
        [(''E'', ''tuids of E'')] [(''new.py'', ''E'')]) \<lparr>deletions_todo := [''X'']\<rparr>)"
  using delete_boundary_exact
    [of "(new_clogger [permanent 1 ''A'', permanent 2 ''Y'', permanent 3 ''X'', permanent 4 ''D'',
                    permanent 5 ''E'']
        [(''X'', ''tuids of X''), (''Y'', ''tuids of Y''), (''E'', ''tuids of E'')]
        [(''old.py'', ''X''), (''new.py'', ''E'')]) \<lparr>deletions_todo := [''X'']\<rparr>" "''X''" 3]
  by (simp add: delete_boundary_def get_one_revnum_def new_clogger_def permanent_def
      recompute_table_revnums_def sql_insert_row_def sql_max_revnum_def)

text \<open>The deletion cascade of the spec (scenario 5), as one pass of the worker.\<close>

lemma csetLog_deleter_cascade:
  "csetLog_deleter
     ((new_clogger [permanent 1 ''A'', permanent 2 ''Y'', permanent 3 ''X'', permanent 4 ''D'',
                    permanent 5 ''E'']
        [(''X'', ''tuids of X''), (''Y'', ''tuids of Y''), (''E'', ''tuids of E'')]
        [(''old.py'', ''X''), (''new.py'', ''E'')]) \<lparr>deletions_todo := [''X'']\<rparr>)
   = new_clogger [permanent 1 ''D'', permanent 2 ''E'']
        [(''E'', ''tuids of E'')] [(''new.py'', ''E'')]"
  by (simp add: csetLog_deleter_def delete_boundary_def get_one_revnum_def new_clogger_def
      permanent_def recompute_table_revnums_def sql_insert_row_def sql_max_revnum_def)

subsection \<open>The query facade\<close>

lemma insort_key_map_row:
  "insort_key fst (revnum x, revision x) (map (\<lambda>r. (revnum r, revision r)) ys)
   = map (\<lambda>r. (revnum r, revision r)) (insort_key revnum x ys)"
  by (induction ys) simp_all

lemma sort_key_map_row:
  "sort_key fst (map (\<lambda>r. (revnum r, revision r)) xs)
   = map (\<lambda>r. (revnum r, revision r)) (sort_key revnum xs)"
  by (induction xs) (simp_all add: insort_key_map_row)

text \<open>
  The range query on two numbers: the rows between the smaller and the larger, both included,
  whichever comes first; sorted by revnum they are the rows of that range in ascending order.
\<close>

lemma get_revnum_range_numbers:
  "get_revnum_range tbl (Num a) (Num b)
   = map (\<lambda>r. (revnum r, revision r))
       (filter (\<lambda>r. min a b \<le> revnum r \<and> revnum r \<le> max a b) tbl)"
proof -
  have "py_max (Num a) (Num b) = Num (max a b)" by (simp add: py_max_def max_def)
  moreover have "py_min (Num a) (Num b) = Num (min a b)" by (simp add: py_min_def min_def)
  ultimately show ?thesis unfolding get_revnum_range_def Let_def by simp
qed

lemma sorted_revnum_range_numbers:
  "sorted_revnum_range tbl (Num a) (Num b)
   = map (\<lambda>r. (revnum r, revision r))
       (filter (\<lambda>r. min a b \<le> revnum r \<and> revnum r \<le> max a b) (sort_key revnum tbl))
   \<and> sorted (map fst (sorted_revnum_range tbl (Num a) (Num b)))"
proof
  show "sorted_revnum_range tbl (Num a) (Num b)
   = map (\<lambda>r. (revnum r, revision r))
       (filter (\<lambda>r. min a b \<le> revnum r \<and> revnum r \<le> max a b) (sort_key revnum tbl))"
    unfolding sorted_revnum_range_def get_revnum_range_numbers sort_key_map_row
    by (simp only: filter_sort)
  show "sorted (map fst (sorted_revnum_range tbl (Num a) (Num b)))"
    unfolding sorted_revnum_range_def by simp
qed

text \<open>The range query on two rows: a tuple bounds no row of the table.\<close>

lemma get_revnum_range_rows: "get_revnum_range tbl (Tuple vs) (Tuple ws) = []"
proof -
  have "py_min (Tuple vs) (Tuple ws) = Tuple vs \<or> py_min (Tuple vs) (Tuple ws) = Tuple ws"
    by (simp add: py_min_def)
  then have "\<And>n. \<not> sql_ge n (py_min (Tuple vs) (Tuple ws))" by auto
  then show ?thesis unfolding get_revnum_range_def Let_def by simp
qed

lemma get_one_revnum_row:
  "get_one_revnum tbl rv = Some row \<Longrightarrow> \<exists>k. row = Tuple [Num k]"
  unfolding get_one_revnum_def by auto

lemma get_one_revnum_present:
  assumes "r \<in> set tbl" "distinct (map revision tbl)"
  shows "get_one_revnum tbl (Text (revision r)) = Some (Tuple [Num (revnum r)])"
proof -
  have inj: "inj_on revision (set tbl)" using assms(2) by (simp add: distinct_map)
  from assms(1) obtain x where
    x: "find (\<lambda>y. Text (revision y) = Text (revision r)) tbl = Some x"
    by (cases "find (\<lambda>y. Text (revision y) = Text (revision r)) tbl")
       (auto simp add: find_None_iff)
  then have "x \<in> set tbl" "revision x = revision r"
    by (auto simp add: find_Some_iff)
  with inj assms(1) have "x = r" by (auto dest: inj_onD)
  with x show ?thesis unfolding get_one_revnum_def by simp
qed

lemma get_one_revnum_Tuple: "get_one_revnum tbl (Tuple vs) = None"
  unfolding get_one_revnum_def by (simp add: find_None_iff)

lemma poll_revnum_Tuple: "poll_revnum reads (Tuple vs) = None"
  by (induction reads) (simp_all add: get_one_revnum_Tuple)

lemma get_old_cset_revnum_None: "fst (get_old_cset_revnum st reads rv) = None"
  unfolding get_old_cset_revnum_def Let_def by (simp add: poll_revnum_Tuple)

lemma resolve_revnums_rows:
  assumes "resolve_revnums minp clog fuel now reads1 st revision1 revision2
           = Some (Inr (row1, r2), st1)"
  shows "(\<exists>k. row1 = Tuple [Num k]) \<and> (r2 = None \<or> (\<exists>k. r2 = Some (Tuple [Num k])))"
proof -
  have opt: "r = None \<or> (\<exists>k. r = Some (Tuple [Num k]))"
    if "r = get_one_revnum tbl rv" for r tbl rv
  proof (cases r)
    case None
    then show ?thesis by simp
  next
    case (Some row)
    with that have "get_one_revnum tbl rv = Some row" by simp
    from get_one_revnum_row [OF this] Some show ?thesis by simp
  qed
  define l1 where "l1 = get_one_revnum (csetLog st) (Text revision1)"
  define l2 where "l2 = get_one_revnum (csetLog st) (Text revision2)"
  show ?thesis
  proof (cases l1)
    case (Some row)
    have "resolve_revnums minp clog fuel now reads1 st revision1 revision2
          = Some (Inr (row, l2), st)"
      unfolding resolve_revnums_def Let_def l1_def [symmetric] l2_def [symmetric]
      by (simp add: Some)
    with assms have e: "row1 = row" "r2 = l2" by simp_all
    from Some have "get_one_revnum (csetLog st) (Text revision1) = Some row"
      by (simp add: l1_def)
    from get_one_revnum_row [OF this] e(1) have "\<exists>k. row1 = Tuple [Num k]" by simp
    moreover from opt [OF l2_def] e(2) have "r2 = None \<or> (\<exists>k. r2 = Some (Tuple [Num k]))"
      by simp
    ultimately show ?thesis by blast
  next
    case None
    have r: "resolve_revnums minp clog fuel now reads1 st revision1 revision2 =
      (case update_tip minp clog fuel now st of
                None \<Rightarrow> None
              | Some (Inl err, st1) \<Rightarrow> Some (Inl err, st1)
              | Some (Inr did_an_update, st1) \<Rightarrow>
                  (let revnum1' = (if did_an_update then get_one_revnum (csetLog st1) (Text revision1)
                                   else l1);
                       revnum2' = (if did_an_update then get_one_revnum (csetLog st1) (Text revision2)
                                   else l2)
                   in case revnum1' of
                        Some row1 \<Rightarrow> Some (Inr (row1, revnum2'), st1)
                      | None \<Rightarrow>
                          (case get_old_cset_revnum st1 reads1 revision1 of
                             (None, st2) \<Rightarrow> None
                           | (Some row1, st2) \<Rightarrow>
                               Some (Inr (row1, get_one_revnum (csetLog st2) (Text revision2)),
                                     st2))))"
      unfolding resolve_revnums_def [of minp clog fuel now reads1 st revision1 revision2]
        l1_def [symmetric] l2_def [symmetric] Let_def [of l1] Let_def [of l2]
      by (simp only: None option.case)
    show ?thesis
    proof (cases "update_tip minp clog fuel now st")
      case n: None
      with r assms show ?thesis by simp
    next
      case (Some res)
      obtain out st' where res: "res = (out, st')" by (cases res)
      show ?thesis
      proof (cases out)
        case (Inl err)
        with r Some res assms show ?thesis by simp
      next
        case (Inr did)
        define a1 where "a1 = (if did then get_one_revnum (csetLog st') (Text revision1) else l1)"
        define a2 where "a2 = (if did then get_one_revnum (csetLog st') (Text revision2) else l2)"
        have r': "resolve_revnums minp clog fuel now reads1 st revision1 revision2 =
           (case a1 of
              Some row1 \<Rightarrow> Some (Inr (row1, a2), st')
            | None \<Rightarrow>
                (case get_old_cset_revnum st' reads1 revision1 of
                   (None, st2) \<Rightarrow> None
                 | (Some row1, st2) \<Rightarrow>
                     Some (Inr (row1, get_one_revnum (csetLog st2) (Text revision2)), st2)))"
          unfolding r a1_def a2_def by (simp add: Some res Inr Let_def)
        have o2: "a2 = None \<or> (\<exists>k. a2 = Some (Tuple [Num k]))"
        proof (cases did)
          case True
          then have "a2 = get_one_revnum (csetLog st') (Text revision2)" by (simp add: a2_def)
          from opt [OF this] show ?thesis .
        next
          case False
          then have "a2 = get_one_revnum (csetLog st) (Text revision2)"
            by (simp add: a2_def l2_def)
          from opt [OF this] show ?thesis .
        qed
        show ?thesis
        proof (cases a1)
          case (Some row)
          with r' assms have e: "row1 = row" "r2 = a2" by simp_all
          have "did" using Some None by (cases did) (simp_all add: a1_def)
          with Some have "get_one_revnum (csetLog st') (Text revision1) = Some row"
            by (simp add: a1_def)
          from get_one_revnum_row [OF this] e(1) have "\<exists>k. row1 = Tuple [Num k]" by simp
          with o2 e(2) show ?thesis by blast
        next
          case n: None
          obtain p st2 where g: "get_old_cset_revnum st' reads1 revision1 = (p, st2)"
            by (cases "get_old_cset_revnum st' reads1 revision1")
          with get_old_cset_revnum_None [of st' reads1 revision1] have "p = None" by simp
          with r' n g assms show ?thesis by simp
        qed
      qed
    qed
  qed
qed

lemma get_revnnums_from_range_empty:
  assumes "get_revnnums_from_range minp clog fuel now reads1 reads2 st revision1 revision2
           = Some (Inr res, st')"
  shows "res = []"
proof -
  from assms obtain row1 r2 st1 where
    r: "resolve_revnums minp clog fuel now reads1 st revision1 revision2
        = Some (Inr (row1, r2), st1)"
    unfolding get_revnnums_from_range_def
    by (auto split: option.splits sum.splits prod.splits)
  from resolve_revnums_rows [OF r] obtain k where row1: "row1 = Tuple [Num k]" by blast
  show ?thesis
  proof (cases r2)
    case None
    obtain p st2 where g: "get_old_cset_revnum st1 reads2 revision2 = (p, st2)"
      by (cases "get_old_cset_revnum st1 reads2 revision2")
    with get_old_cset_revnum_None [of st1 reads2 revision2] have "p = None" by simp
    with None r g assms show ?thesis unfolding get_revnnums_from_range_def by simp
  next
    case (Some row2)
    with resolve_revnums_rows [OF r] obtain k2 where "row2 = Tuple [Num k2]" by auto
    with Some r row1 assms show ?thesis
      unfolding get_revnnums_from_range_def sorted_revnum_range_def
      by (simp add: get_revnum_range_rows)
  qed
qed

text \<open>
  Claim C6 says that the range query returns exactly the rows with
  \<open>min a b \<le> revnum \<le> max a b\<close>, whichever way round the revnums are given, and that
  \<open>get_revnnums_from_range\<close> returns that range in ascending order. The first holds of
  \<open>_get_revnum_range\<close> on two numbers. \<open>get_revnnums_from_range\<close> does not call it on numbers:
  it passes the rows \<open>(revnum,)\<close> that \<open>_get_one_revnum\<close> returns, without the subscript \<open>[0]\<close>
  that the deleter applies to the same call, so the bounds of the query are tuples and no row
  lies between them. With both revisions resident it returns the empty list, and so it does
  whenever it returns.
\<close>

theorem get_revnnums_from_range_binds_rows:
  "get_revnum_range tbl (Num a) (Num b)
     = map (\<lambda>r. (revnum r, revision r))
         (filter (\<lambda>r. min a b \<le> revnum r \<and> revnum r \<le> max a b) tbl)
   \<and> get_revnum_range tbl (Num a) (Num b) = get_revnum_range tbl (Num b) (Num a)
   \<and> get_revnum_range tbl (Tuple [Num a]) (Tuple [Num b]) = []
   \<and> (get_one_revnum (csetLog st) (Text revision1) = Some (Tuple [Num a])
        \<and> get_one_revnum (csetLog st) (Text revision2) = Some (Tuple [Num b]) \<longrightarrow>
        get_revnnums_from_range minp clog fuel now reads1 reads2 st revision1 revision2
          = Some (Inr [], st))
   \<and> (get_revnnums_from_range minp clog fuel now reads1 reads2 st revision1 revision2
          = Some (Inr res, st') \<longrightarrow> res = [])"
proof (intro conjI impI)
  show "get_revnum_range tbl (Num a) (Num b)
     = map (\<lambda>r. (revnum r, revision r))
         (filter (\<lambda>r. min a b \<le> revnum r \<and> revnum r \<le> max a b) tbl)"
    by (rule get_revnum_range_numbers)
  show "get_revnum_range tbl (Num a) (Num b) = get_revnum_range tbl (Num b) (Num a)"
    unfolding get_revnum_range_numbers by (simp add: max.commute min.commute)
  show "get_revnum_range tbl (Tuple [Num a]) (Tuple [Num b]) = []"
    by (rule get_revnum_range_rows)
next
  assume "get_one_revnum (csetLog st) (Text revision1) = Some (Tuple [Num a])
        \<and> get_one_revnum (csetLog st) (Text revision2) = Some (Tuple [Num b])"
  then show "get_revnnums_from_range minp clog fuel now reads1 reads2 st revision1 revision2
          = Some (Inr [], st)"
    unfolding get_revnnums_from_range_def resolve_revnums_def Let_def sorted_revnum_range_def
    by (simp add: get_revnum_range_rows)
next
  assume "get_revnnums_from_range minp clog fuel now reads1 reads2 st revision1 revision2
          = Some (Inr res, st')"
  then show "res = []" by (rule get_revnnums_from_range_empty)
qed

theorem get_revnnums_from_range_binds_rows_witness:
  "get_revnnums_from_range 2 (map_of []) 0 1700000000 [] []
     (new_clogger [permanent 1 ''A'', permanent 2 ''B'', permanent 3 ''C''] [] []) ''A'' ''C''
   = Some (Inr [], new_clogger [permanent 1 ''A'', permanent 2 ''B'', permanent 3 ''C''] [] [])
   \<and> get_revnum_range [permanent 1 ''A'', permanent 2 ''B'', permanent 3 ''C''] (Num 3) (Num 1)
   = [(1, ''A''), (2, ''B''), (3, ''C'')]
   \<and> get_one_revnum [permanent 1 ''A'', permanent 2 ''B'', permanent 3 ''C''] (Text ''C'')
   = Some (Tuple [Num 3])"
  using get_revnnums_from_range_binds_rows
    [of "[permanent 1 ''A'', permanent 2 ''B'', permanent 3 ''C'']" 3 1
        "new_clogger [permanent 1 ''A'', permanent 2 ''B'', permanent 3 ''C''] [] []"
        "''A''" "''C''" 2 "map_of []" 0 1700000000 "[]" "[]"
        "[]" "new_clogger [permanent 1 ''A'', permanent 2 ''B'', permanent 3 ''C''] [] []"]
    get_revnnums_from_range_binds_rows
    [of "[permanent 1 ''A'', permanent 2 ''B'', permanent 3 ''C'']" 1 3
        "new_clogger [permanent 1 ''A'', permanent 2 ''B'', permanent 3 ''C''] [] []"
        "''A''" "''C''" 2 "map_of []" 0 1700000000 "[]" "[]"
        "[]" "new_clogger [permanent 1 ''A'', permanent 2 ''B'', permanent 3 ''C''] [] []"]
  by (simp add: get_one_revnum_def permanent_def new_clogger_def)

lemma poll_revnum_first:
  "i < length reads \<Longrightarrow> get_one_revnum (reads ! i) rv = Some k \<Longrightarrow>
   (\<And>j. j < i \<Longrightarrow> get_one_revnum (reads ! j) rv = None) \<Longrightarrow>
   poll_revnum reads rv = Some (k, reads ! i)"
proof (induction reads arbitrary: i)
  case Nil
  then show ?case by simp
next
  case (Cons tbl rest)
  show ?case
  proof (cases i)
    case 0
    with Cons.prems(2) show ?thesis by simp
  next
    case (Suc n)
    have h: "get_one_revnum tbl rv = None" using Cons.prems(3) [of 0] Suc by simp
    have n: "n < length rest" using Cons.prems(1) Suc by simp
    have k: "get_one_revnum (rest ! n) rv = Some k" using Cons.prems(2) Suc by simp
    have e: "get_one_revnum (rest ! j) rv = None" if "j < n" for j
      using Cons.prems(3) [of "Suc j"] that Suc by simp
    from Cons.IH [OF n k e] h Suc show ?thesis by simp
  qed
qed

text \<open>
  Claim C8 says that the lookup of the poll returns the revnum of the revision in every state
  in which the revision is in \<open>csetLog\<close>, so that \<open>get_old_cset_revnum\<close> returns it once the
  backfill worker has inserted the revision. The request is appended to the queue, but the poll
  looks up the tuple \<open>(revision,)\<close>, not the revision as the other callers of
  \<open>_get_one_revnum\<close> do: no row has it as its revision, and the call is still waiting after
  every round, whatever the tables hold.
\<close>

theorem get_old_cset_revnum_never_returns:
  "fst (get_old_cset_revnum st reads rv) = None
   \<and> csets_todo_backwards (snd (get_old_cset_revnum st reads rv))
       = csets_todo_backwards st @ [(rv, True)]
   \<and> csetLog (snd (get_old_cset_revnum st reads rv)) = csetLog st"
  unfolding get_old_cset_revnum_def Let_def by (simp add: poll_revnum_Tuple)

theorem get_old_cset_revnum_never_returns_witness:
  "get_old_cset_revnum (new_clogger [permanent 1 ''A'', permanent 2 ''B''] [] [])
     [[permanent 1 ''A'', permanent 2 ''B''], [permanent 1 ''A'', permanent 2 ''B'']] ''A''
   = (None, (new_clogger [permanent 1 ''A'', permanent 2 ''B''] [] [])
        \<lparr>csets_todo_backwards := [(''A'', True)]\<rparr>)
   \<and> get_one_revnum [permanent 1 ''A'', permanent 2 ''B''] (Text ''A'') = Some (Tuple [Num 1])"
  using get_old_cset_revnum_never_returns
    [of "new_clogger [permanent 1 ''A'', permanent 2 ''B''] [] []"
        "[[permanent 1 ''A'', permanent 2 ''B''], [permanent 1 ''A'', permanent 2 ''B'']]" "''A''"]
  by (simp add: get_old_cset_revnum_def poll_revnum_Tuple new_clogger_def get_one_revnum_def
      permanent_def)

text \<open>
  With the revision itself as the value, as in \<open>get_revnnums_from_range\<close>, the same poll
  returns at the first round that reads a table in which the revision is present.
\<close>

lemma poll_revnum_Text:
  assumes "i < length reads" "r \<in> set (reads ! i)" "distinct (map revision (reads ! i))"
    and "\<And>j. j < i \<Longrightarrow> revision r \<notin> revision ` set (reads ! j)"
  shows "poll_revnum reads (Text (revision r)) = Some (Tuple [Num (revnum r)], reads ! i)"
proof -
  have k: "get_one_revnum (reads ! i) (Text (revision r)) = Some (Tuple [Num (revnum r)])"
    using get_one_revnum_present [OF assms(2,3)] .
  have e: "get_one_revnum (reads ! j) (Text (revision r)) = None" if "j < i" for j
    using assms(4) [OF that] unfolding get_one_revnum_def
    by (auto simp add: find_None_iff intro: rev_image_eqI)
  from poll_revnum_first [OF assms(1) k e] show ?thesis .
qed

end
